theory Spec2Isabelle
  imports Main
begin

section \<open>Regular expressions of the kind the win test uses\<close>

text \<open>
  The win test of \<open>play\<close> is a regular expression applied to the serialized board. The
  fragment of the pattern language it needs: the start anchor \<open>^\<close>, the wildcard
  \<open>.\<close>, a character class, a capturing group with its number, a back-reference,
  concatenation, alternation, the greedy star and the greedy option.
\<close>

datatype regex =
    BOL
  | AnyChar
  | OneOf "char list"
  | Backref nat
  | Group nat regex
  | Seq regex regex
  | Alt regex regex
  | Star regex
  | Opt regex

text \<open>
  A matcher state is the position reached in the input and the captures made so far
  (the latest capture of a group first). \<open>run r inp st\<close> lists every state in which a
  match of \<open>r\<close> started in \<open>st\<close> can end, in the order a backtracking matcher tries them.
\<close>

type_synonym mstate = "nat \<times> (nat \<times> string) list"

definition line_terminator :: "char \<Rightarrow> bool" where
  "line_terminator c = (c = CHR 0x0A \<or> c = CHR 0x0D)"

text \<open>
  One more round of a star is only taken when it consumed input, so at most as many
  rounds as there are characters left can be taken: that is the bound \<open>n\<close>.
\<close>

primrec iterate :: "nat \<Rightarrow> (mstate \<Rightarrow> mstate list) \<Rightarrow> mstate \<Rightarrow> mstate list" where
  "iterate 0 f st = [st]"
| "iterate (Suc n) f st =
     concat (map (iterate n f) (filter (\<lambda>st'. fst st < fst st') (f st))) @ [st]"

primrec run :: "regex \<Rightarrow> string \<Rightarrow> mstate \<Rightarrow> mstate list" where
  "run BOL inp st = (if fst st = 0 then [st] else [])"
| "run AnyChar inp st =
     (if fst st < length inp \<and> \<not> line_terminator (inp ! fst st)
      then [(Suc (fst st), snd st)] else [])"
| "run (OneOf cs) inp st =
     (if fst st < length inp \<and> inp ! fst st \<in> set cs
      then [(Suc (fst st), snd st)] else [])"
| "run (Backref n) inp st =
     (case map_of (snd st) n of
        None \<Rightarrow> [st]
      | Some w \<Rightarrow>
          (if take (length w) (drop (fst st) inp) = w
           then [(fst st + length w, snd st)] else []))"
| "run (Group n r) inp st =
     map (\<lambda>st'. (fst st', (n, take (fst st' - fst st) (drop (fst st) inp)) # snd st'))
         (run r inp st)"
| "run (Seq r1 r2) inp st = concat (map (run r2 inp) (run r1 inp st))"
| "run (Alt r1 r2) inp st = run r1 inp st @ run r2 inp st"
| "run (Star r) inp st = iterate (length inp - fst st) (run r inp) st"
| "run (Opt r) inp st = run r inp st @ [st]"

text \<open>\<open>RegExp.prototype.test\<close> without flags: a match may start at any position.\<close>

definition regex_test :: "regex \<Rightarrow> string \<Rightarrow> bool" where
  "regex_test r inp = list_ex (\<lambda>i. run r inp (i, []) \<noteq> []) [0..<Suc (length inp)]"

text \<open>Concatenation and alternation of several parts, nested to the right.\<close>

definition seqs :: "regex list \<Rightarrow> regex" where
  "seqs rs = foldr Seq (butlast rs) (last rs)"

definition alts :: "regex list \<Rightarrow> regex" where
  "alts rs = foldr Alt (butlast rs) (last rs)"

text \<open>
  The pattern of \<open>play\<close>, alternative by alternative:
  \<^verbatim>\<open>^(?:...)*([12])\1\1\<close>, \<^verbatim>\<open>^.?.?([12])..\2..\2\<close>,
  \<^verbatim>\<open>^([12])...\3...\3\<close> and \<^verbatim>\<open>^..([12]).\4.\4\<close>.
\<close>

definition win_rows :: regex where
  "win_rows = seqs [BOL, Star (seqs [AnyChar, AnyChar, AnyChar]),
                    Group 1 (OneOf ''12''), Backref 1, Backref 1]"

definition win_cols :: regex where
  "win_cols = seqs [BOL, Opt AnyChar, Opt AnyChar, Group 2 (OneOf ''12''),
                    AnyChar, AnyChar, Backref 2, AnyChar, AnyChar, Backref 2]"

definition win_diag :: regex where
  "win_diag = seqs [BOL, Group 3 (OneOf ''12''), AnyChar, AnyChar, AnyChar, Backref 3,
                    AnyChar, AnyChar, AnyChar, Backref 3]"

definition win_anti :: regex where
  "win_anti = seqs [BOL, AnyChar, AnyChar, Group 4 (OneOf ''12''), AnyChar, Backref 4,
                    AnyChar, Backref 4]"

definition win_regex :: regex where
  "win_regex = alts [win_rows, win_cols, win_diag, win_anti]"

section \<open>The game state\<close>

text \<open>
  A cell of the board array is a number, or \<open>None\<close> where the array has no element
  (JavaScript reads \<open>undefined\<close> there). The history holds the indices that \<open>play\<close>
  pushed; \<open>play\<close> pushes an index only after it has read the number 0 at it, so an
  entry is an array index, a natural number.
\<close>

record GameState =
  board :: "nat option list"
  moves :: "nat list"
  isWin :: bool
  isDraw :: bool

definition new_game :: GameState where
  "new_game = \<lparr>board = replicate 9 (Some 0), moves = [], isWin = False, isDraw = False\<rparr>"

definition turn :: "GameState \<Rightarrow> nat" where
  "turn s = 1 + length (moves s) mod 2"

text \<open>Reading \<open>board[i]\<close>: \<open>undefined\<close> outside the array.\<close>

definition cell_at :: "nat option list \<Rightarrow> int \<Rightarrow> nat option" where
  "cell_at b i = (if 0 \<le> i \<and> nat i < length b then b ! nat i else None)"

text \<open>Writing \<open>board[i] = v\<close>: past the end, the array grows and the gap has no elements.\<close>

definition store :: "nat option list \<Rightarrow> nat \<Rightarrow> nat \<Rightarrow> nat option list" where
  "store b i v =
     (if i < length b then b[i := Some v]
      else b @ replicate (i - length b) None @ [Some v])"

text \<open>
  \<open>validMoves\<close>: the board is mapped to the index of each cell that is 0 and to -1
  elsewhere, and the -1 are filtered out.
\<close>

definition validMoves :: "GameState \<Rightarrow> int list" where
  "validMoves s =
     filter (\<lambda>index. index \<noteq> - 1)
       (map (\<lambda>(cell, index). if cell = Some 0 then int index else - 1)
            (zip (board s) [0..<length (board s)]))"

text \<open>\<open>board.join("")\<close>: the decimal digits of each number, nothing for \<open>undefined\<close>.\<close>

definition digit_char :: "nat \<Rightarrow> char" where
  "digit_char d = ''0123456789'' ! d"

fun show_nat :: "nat \<Rightarrow> string" where
  "show_nat n =
     (if n < 10 then [digit_char n]
      else show_nat (n div 10) @ [digit_char (n mod 10)])"

definition join :: "nat option list \<Rightarrow> string" where
  "join b = concat (map (\<lambda>c. case c of None \<Rightarrow> [] | Some n \<Rightarrow> show_nat n) b)"

definition play :: "int \<Rightarrow> GameState \<Rightarrow> bool \<times> GameState" where
  "play move s =
     (if cell_at (board s) move \<noteq> Some 0 \<or> isWin s then (False, s)
      else
        let b = store (board s) (nat move) (turn s);
            ms = moves s @ [nat move];
            w = regex_test win_regex (join b)
        in (True, \<lparr>board = b, moves = ms, isWin = w,
                   isDraw = (\<not> w \<and> length ms = length b)\<rparr>))"

definition takeBack :: "GameState \<Rightarrow> bool \<times> GameState" where
  "takeBack s =
     (if length (moves s) = 0 then (False, s)
      else (True, \<lparr>board = store (board s) (last (moves s)) 0,
                   moves = butlast (moves s), isWin = False, isDraw = False\<rparr>))"

section \<open>The search\<close>

text \<open>
  The numbers of the search are the integers -10, 0 and 10 and the two infinities that
  the window and the initial best value start from.
\<close>

datatype num = NegInf | Fin int | PosInf

instantiation num :: linorder
begin

fun less_eq_num :: "num \<Rightarrow> num \<Rightarrow> bool" where
  "less_eq_num NegInf _ = True"
| "less_eq_num _ PosInf = True"
| "less_eq_num (Fin a) (Fin b) = (a \<le> b)"
| "less_eq_num _ _ = False"

definition less_num :: "num \<Rightarrow> num \<Rightarrow> bool" where
  "less_num a b = (a \<le> b \<and> \<not> b \<le> a)"

instance
proof
  fix x y z :: num
  show "(x < y) = (x \<le> y \<and> \<not> y \<le> x)" by (simp add: less_num_def)
  show "x \<le> x" by (cases x) simp_all
  show "x \<le> y \<Longrightarrow> y \<le> z \<Longrightarrow> x \<le> z" by (cases x; cases y; cases z) simp_all
  show "x \<le> y \<Longrightarrow> y \<le> x \<Longrightarrow> x = y" by (cases x; cases y) simp_all
  show "x \<le> y \<or> y \<le> x" by (cases x; cases y) auto
qed

end

instantiation num :: uminus
begin

fun uminus_num :: "num \<Rightarrow> num" where
  "uminus_num NegInf = PosInf"
| "uminus_num (Fin a) = Fin (- a)"
| "uminus_num PosInf = NegInf"

instance ..

end

text \<open>
  What \<open>minimax\<close> returns: an object with a \<open>value\<close> and, when a move was recorded,
  the list \<open>moves\<close>; \<open>None\<close> is the missing property.
\<close>

datatype result = Result (res_value: num) (res_moves: "int list option")

datatype error = TypeError

text \<open>
  The loop of \<open>minimax\<close> over the moves that are left, with the recursive call \<open>rec\<close>
  for the depth below. Each round plays the move, searches, takes the move back, negates
  the value and raises \<open>alpha\<close>; it leaves the loop when \<open>alpha >= beta\<close>, and otherwise
  records the move when its value is at least the best one. \<open>best.moves.push\<close> on an
  object without \<open>moves\<close> throws.

  The search works on the one game object: the state is passed in and comes back with
  the result, and the results of \<open>play\<close> and \<open>takeBack\<close> are not looked at, as in the
  source. An exception ends the search at once, with the error as the only result.
\<close>

fun minimax_loop ::
  "(num \<Rightarrow> num \<Rightarrow> GameState \<Rightarrow> error + result \<times> GameState) \<Rightarrow> num \<Rightarrow> int list \<Rightarrow>
   num \<Rightarrow> result \<Rightarrow> GameState \<Rightarrow> error + result \<times> GameState" where
  "minimax_loop rec beta [] alpha best s = Inr (best, s)"
| "minimax_loop rec beta (move # rest) alpha best s =
     (let s1 = snd (play move s) in
      case rec (- beta) (- alpha) s1 of
        Inl e \<Rightarrow> Inl e
      | Inr (child, s2) \<Rightarrow>
          let s3 = snd (takeBack s2);
              v = - res_value child;
              alpha' = max alpha v
          in if alpha' \<ge> beta then Inr (best, s3)
             else if v \<ge> res_value best then
               (let best1 = (if v > res_value best then Result v (Some []) else best)
                in case res_moves best1 of
                     None \<Rightarrow> Inl TypeError
                   | Some ms \<Rightarrow>
                       minimax_loop rec beta rest alpha'
                         (Result (res_value best1) (Some (ms @ [move]))) s3)
             else minimax_loop rec beta rest alpha' best s3)"

text \<open>
  \<open>minimax\<close>: the depth is a count of plies, a natural number; the recursion ends at
  depth 0 or at a won or drawn state.
\<close>

fun minimax :: "nat \<Rightarrow> num \<Rightarrow> num \<Rightarrow> GameState \<Rightarrow> error + result \<times> GameState" where
  "minimax depth alpha beta s =
     (if isWin s \<or> isDraw s \<or> depth = 0 then
        (if isWin s then Inr (Result (Fin (- 10)) None, s)
         else if isDraw s then Inr (Result (Fin 0) None, s)
         else Inr (Result (Fin 0) None, s))
      else minimax_loop (minimax (depth - 1)) beta (validMoves s) alpha
             (Result NegInf None) s)"

text \<open>
  The number that \<open>Math.random()\<close> returns is an IEEE double in \<open>[0, 1)\<close>: a mantissa
  \<open>m\<close> below \<open>2^53\<close> with \<open>k\<close> binary places, at most 1074 of them, worth
  \<open>m / 2^k\<close>.
\<close>

datatype random = Random (mantissa: nat) (places: nat)

definition is_random :: "random \<Rightarrow> bool" where
  "is_random r =
     (mantissa r < 2 ^ 53 \<and> places r \<le> 1074 \<and> mantissa r < 2 ^ places r)"

text \<open>
  \<open>Math.random() * moves.length\<close> is a product of doubles. The length is an integer and
  exact as a double, so the result is the exact product \<open>m * n / 2^k\<close> rounded to the
  nearest double, a tie going to the even mantissa: the numerator \<open>m * n\<close> keeps its 53
  leading bits (all of them when it has no more), rounded on the bits that are dropped.
  \<open>Math.floor\<close> then drops the \<open>k\<close> binary places.
\<close>

fun bitlen :: "nat \<Rightarrow> nat" where
  "bitlen n = (if n = 0 then 0 else Suc (bitlen (n div 2)))"

definition round53 :: "nat \<Rightarrow> nat" where
  "round53 n =
     (if n < 2 ^ 53 then n
      else
        let s = bitlen n - 53;
            q = n div 2 ^ s;
            rest = n mod 2 ^ s;
            half = 2 ^ (s - 1)
        in (if rest > half \<or> (rest = half \<and> odd q) then q + 1 else q) * 2 ^ s)"

definition random_index :: "random \<Rightarrow> nat \<Rightarrow> nat" where
  "random_index r n = round53 (mantissa r * n) div 2 ^ places r"

text \<open>
  \<open>goodMove\<close>: \<open>r\<close> is the number that \<open>Math.random()\<close> returned. Reading
  \<open>moves.length\<close> of a result without \<open>moves\<close> throws; reading the list past its end
  gives \<open>undefined\<close>, which is \<open>None\<close>.
\<close>

definition goodMove :: "nat \<Rightarrow> random \<Rightarrow> GameState \<Rightarrow> error + int option \<times> GameState" where
  "goodMove depth r s =
     (case minimax depth NegInf PosInf s of
        Inl e \<Rightarrow> Inl e
      | Inr (res, s') \<Rightarrow>
          (case res_moves res of
             None \<Rightarrow> Inl TypeError
           | Some ms \<Rightarrow>
               (let i = random_index r (length ms)
                in Inr (if i < length ms then Some (ms ! i) else None, s'))))"

section \<open>The search without pruning, as the specification words it\<close>

text \<open>
  The reference of the refinement claim: the same negamax recursion on copies of the
  state, with no window. A won state is worth -10 to the player to move, a drawn state
  or depth 0 is worth 0; otherwise every valid move is tried in ascending order, its
  value is the negated value of the state it leads to, a greater value replaces the set
  of best moves and an equal value joins it.
\<close>

fun track_best :: "num \<times> int list \<Rightarrow> int \<times> num \<Rightarrow> num \<times> int list" where
  "track_best (bv, bms) (m, v) =
     (if v > bv then (v, [m]) else if v = bv then (bv, bms @ [m]) else (bv, bms))"

fun negamax_unpruned :: "nat \<Rightarrow> GameState \<Rightarrow> num \<times> int list" where
  "negamax_unpruned depth s =
     (if isWin s then (Fin (- 10), [])
      else if isDraw s \<or> depth = 0 then (Fin 0, [])
      else foldl track_best (NegInf, [])
             (map (\<lambda>m. (m, - fst (negamax_unpruned (depth - 1) (snd (play m s)))))
                  (validMoves s)))"

section \<open>The explicit win test, reachable states and their invariant\<close>

text \<open>
  The explicit test: one of the eight index triples holds three equal cells that are
  not empty.
\<close>

definition win_triples :: "(nat \<times> nat \<times> nat) list" where
  "win_triples =
     [(0, 1, 2), (3, 4, 5), (6, 7, 8), (0, 3, 6), (1, 4, 7), (2, 5, 8), (0, 4, 8), (2, 4, 6)]"

definition has_win :: "nat option list \<Rightarrow> bool" where
  "has_win b =
     list_ex (\<lambda>(i, j, k). b ! i \<noteq> Some 0 \<and> b ! i = b ! j \<and> b ! j = b ! k) win_triples"

text \<open>A board as the game makes it: nine cells, each 0, 1 or 2.\<close>

definition wf_board :: "nat option list \<Rightarrow> bool" where
  "wf_board b = (length b = 9 \<and> (\<forall>c \<in> set b. c = Some 0 \<or> c = Some 1 \<or> c = Some 2))"

text \<open>The character that \<open>join\<close> writes for a cell of such a board.\<close>

definition digit :: "nat option \<Rightarrow> char" where
  "digit c = digit_char (the c)"

text \<open>
  The states a game can be in: a fresh game, and whatever \<open>play\<close> (with any argument,
  succeeding or not) and \<open>takeBack\<close> make of a reachable state.
\<close>

inductive reachable :: "GameState \<Rightarrow> bool" where
  fresh: "reachable new_game"
| played: "reachable s \<Longrightarrow> reachable (snd (play move s))"
| taken_back: "reachable s \<Longrightarrow> reachable (snd (takeBack s))"

text \<open>The game after a sequence of calls of \<open>play\<close> on a fresh game.\<close>

definition after_plays :: "int list \<Rightarrow> GameState" where
  "after_plays ms = foldl (\<lambda>s m. snd (play m s)) new_game ms"

text \<open>
  The invariant of the reachable states: the board is well formed, the history has no
  duplicates and lists exactly the cells that are not empty, the cell of entry \<open>k\<close>
  holds the mark of player \<open>1 + k mod 2\<close>, and the draw flag says that the board is
  full without a win.
\<close>

definition state_inv :: "GameState \<Rightarrow> bool" where
  "state_inv s =
     (wf_board (board s) \<and> distinct (moves s) \<and>
      set (moves s) = {i. i < 9 \<and> board s ! i \<noteq> Some 0} \<and>
      list_all (\<lambda>k. board s ! (moves s ! k) = Some (1 + k mod 2)) [0..<length (moves s)] \<and>
      isDraw s = (\<not> isWin s \<and> length (moves s) = 9))"

text \<open>
  What the loop of \<open>minimax\<close> keeps true of \<open>best\<close>, for the set \<open>M\<close> of the moves
  the loop runs over: its value is never \<open>+Infinity\<close>; while no move is recorded the
  value is \<open>-Infinity\<close>; once moves are recorded there is at least one, they come from
  \<open>M\<close>, and the value is above \<open>-Infinity\<close>.
\<close>

definition best_ok :: "int set \<Rightarrow> result \<Rightarrow> bool" where
  "best_ok M best =
     (res_value best \<noteq> PosInf \<and>
      (case res_moves best of
         None \<Rightarrow> res_value best = NegInf
       | Some ms \<Rightarrow> res_value best \<noteq> NegInf \<and> ms \<noteq> [] \<and> set ms \<subseteq> M))"

section \<open>The win test reads the eight lines\<close>

subsection \<open>The matcher, as a relation between states\<close>

lemma in_run_BOL: "st' \<in> set (run BOL inp st) \<longleftrightarrow> fst st = 0 \<and> st' = st"
  by auto

lemma in_run_AnyChar:
  "st' \<in> set (run AnyChar inp st) \<longleftrightarrow>
     fst st < length inp \<and> \<not> line_terminator (inp ! fst st) \<and> st' = (Suc (fst st), snd st)"
  by auto

lemma in_run_OneOf:
  "st' \<in> set (run (OneOf cs) inp st) \<longleftrightarrow>
     fst st < length inp \<and> inp ! fst st \<in> set cs \<and> st' = (Suc (fst st), snd st)"
  by auto

lemma in_run_Backref:
  "st' \<in> set (run (Backref n) inp st) \<longleftrightarrow>
     (case map_of (snd st) n of
        None \<Rightarrow> st' = st
      | Some w \<Rightarrow> take (length w) (drop (fst st) inp) = w \<and> st' = (fst st + length w, snd st))"
  by (auto split: option.splits)

lemma in_run_Group:
  "st' \<in> set (run (Group n r) inp st) \<longleftrightarrow>
     (\<exists>m. m \<in> set (run r inp st) \<and>
          st' = (fst m, (n, take (fst m - fst st) (drop (fst st) inp)) # snd m))"
  by force

lemma in_run_Seq:
  "st' \<in> set (run (Seq r1 r2) inp st) \<longleftrightarrow>
     (\<exists>m. m \<in> set (run r1 inp st) \<and> st' \<in> set (run r2 inp m))"
  by auto

lemma in_run_Alt:
  "st' \<in> set (run (Alt r1 r2) inp st) \<longleftrightarrow>
     st' \<in> set (run r1 inp st) \<or> st' \<in> set (run r2 inp st)"
  by auto

lemma in_run_Opt:
  "st' \<in> set (run (Opt r) inp st) \<longleftrightarrow> st' \<in> set (run r inp st) \<or> st' = st"
  by auto

lemma in_iterate_0: "st' \<in> set (iterate 0 f st) \<longleftrightarrow> st' = st"
  by simp

lemma in_iterate_Suc:
  "st' \<in> set (iterate (Suc n) f st) \<longleftrightarrow>
     (\<exists>m. m \<in> set (f st) \<and> fst st < fst m \<and> st' \<in> set (iterate n f m)) \<or> st' = st"
  by auto

lemma in_run_Star:
  "st' \<in> set (run (Star r) inp st) \<longleftrightarrow>
     st' \<in> set (iterate (length inp - fst st) (run r inp) st)"
  by simp

lemmas in_run = in_run_BOL in_run_AnyChar in_run_OneOf in_run_Backref in_run_Group
  in_run_Seq in_run_Alt in_run_Opt in_iterate_0 in_iterate_Suc in_run_Star

lemma nonempty_iff: "xs \<noteq> [] \<longleftrightarrow> (\<exists>x. x \<in> set xs)"
  by (cases xs) auto

subsection \<open>Each alternative on a string of nine characters\<close>

lemma run_win_diag:
  assumes "\<forall>c \<in> set [x0, x1, x2, x3, x4, x5, x6, x7, x8]. \<not> line_terminator c"
  shows "run win_diag [x0, x1, x2, x3, x4, x5, x6, x7, x8] (0, []) \<noteq> [] \<longleftrightarrow>
           (x0 = CHR ''1'' \<or> x0 = CHR ''2'') \<and> x4 = x0 \<and> x8 = x0"
  using assms unfolding nonempty_iff win_diag_def seqs_def
  by (simp add: in_run del: run.simps iterate.simps)

lemma run_win_anti:
  assumes "\<forall>c \<in> set [x0, x1, x2, x3, x4, x5, x6, x7, x8]. \<not> line_terminator c"
  shows "run win_anti [x0, x1, x2, x3, x4, x5, x6, x7, x8] (0, []) \<noteq> [] \<longleftrightarrow>
           (x2 = CHR ''1'' \<or> x2 = CHR ''2'') \<and> x4 = x2 \<and> x6 = x2"
  using assms unfolding nonempty_iff win_anti_def seqs_def
  by (simp add: in_run del: run.simps iterate.simps)

lemma run_win_cols:
  assumes "\<forall>c \<in> set [x0, x1, x2, x3, x4, x5, x6, x7, x8]. \<not> line_terminator c"
  shows "run win_cols [x0, x1, x2, x3, x4, x5, x6, x7, x8] (0, []) \<noteq> [] \<longleftrightarrow>
           (x0 = CHR ''1'' \<or> x0 = CHR ''2'') \<and> x3 = x0 \<and> x6 = x0 \<or>
           (x1 = CHR ''1'' \<or> x1 = CHR ''2'') \<and> x4 = x1 \<and> x7 = x1 \<or>
           (x2 = CHR ''1'' \<or> x2 = CHR ''2'') \<and> x5 = x2 \<and> x8 = x2"
  using assms unfolding nonempty_iff win_cols_def seqs_def
  apply (simp add: in_run ex_disj_distrib conj_disj_distribR conj_disj_distribL
               del: run.simps iterate.simps)
  apply blast
  done

lemma run_win_rows:
  assumes "\<forall>c \<in> set [x0, x1, x2, x3, x4, x5, x6, x7, x8]. \<not> line_terminator c"
  shows "run win_rows [x0, x1, x2, x3, x4, x5, x6, x7, x8] (0, []) \<noteq> [] \<longleftrightarrow>
           (x0 = CHR ''1'' \<or> x0 = CHR ''2'') \<and> x1 = x0 \<and> x2 = x0 \<or>
           (x3 = CHR ''1'' \<or> x3 = CHR ''2'') \<and> x4 = x3 \<and> x5 = x3 \<or>
           (x6 = CHR ''1'' \<or> x6 = CHR ''2'') \<and> x7 = x6 \<and> x8 = x6"
  using assms unfolding nonempty_iff win_rows_def seqs_def
  apply (simp add: in_run ex_disj_distrib conj_disj_distribR conj_disj_distribL
               del: run.simps iterate.simps)
  apply blast
  done

text \<open>Every alternative starts with the anchor, so a match starts at position 0.\<close>

lemma run_win_regex_later: "0 < i \<Longrightarrow> run win_regex inp (i, []) = []"
  by (simp add: win_regex_def alts_def seqs_def win_rows_def win_cols_def win_diag_def
        win_anti_def)

lemma regex_test_win_regex:
  "regex_test win_regex inp \<longleftrightarrow>
     run win_rows inp (0, []) \<noteq> [] \<or> run win_cols inp (0, []) \<noteq> [] \<or>
     run win_diag inp (0, []) \<noteq> [] \<or> run win_anti inp (0, []) \<noteq> []"
proof -
  have "regex_test win_regex inp \<longleftrightarrow> run win_regex inp (0, []) \<noteq> []"
  proof
    assume "regex_test win_regex inp"
    then obtain i where "run win_regex inp (i, []) \<noteq> []"
      by (auto simp: regex_test_def list_ex_iff)
    then show "run win_regex inp (0, []) \<noteq> []"
      using run_win_regex_later [of i inp] by (cases "i = 0") auto
  next
    assume "run win_regex inp (0, []) \<noteq> []"
    then show "regex_test win_regex inp"
      unfolding regex_test_def list_ex_iff by (intro bexI [of _ 0]) auto
  qed
  then show ?thesis
    by (simp add: win_regex_def alts_def)
qed

subsection \<open>From the string back to the board\<close>

lemma digit_cases:
  "digit (Some 0) = CHR ''0''" "digit (Some (Suc 0)) = CHR ''1''" "digit (Some 2) = CHR ''2''"
  by (simp_all add: digit_def digit_char_def)

lemma wf_cell_join:
  "c = Some 0 \<or> c = Some 1 \<or> c = Some 2 \<Longrightarrow>
     (case c of None \<Rightarrow> [] | Some n \<Rightarrow> show_nat n) = [digit c]"
  by (auto simp: digit_def)

lemma wf_board_nine:
  assumes "wf_board b"
  obtains c0 c1 c2 c3 c4 c5 c6 c7 c8 where "b = [c0, c1, c2, c3, c4, c5, c6, c7, c8]"
proof -
  from assms have "length b = 9" by (simp add: wf_board_def)
  then show ?thesis
    using that by (auto simp: eval_nat_numeral length_Suc_conv)
qed

lemma digit_line:
  assumes "c = Some 0 \<or> c = Some 1 \<or> c = Some 2"
    and "c' = Some 0 \<or> c' = Some 1 \<or> c' = Some 2"
    and "c'' = Some 0 \<or> c'' = Some 1 \<or> c'' = Some 2"
  shows "(digit c = CHR ''1'' \<or> digit c = CHR ''2'') \<and> digit c' = digit c \<and> digit c'' = digit c
           \<longleftrightarrow> c \<noteq> Some 0 \<and> c = c' \<and> c' = c''"
  using assms by (elim disjE; simp add: digit_cases)

lemma digit_not_terminator:
  "c = Some 0 \<or> c = Some 1 \<or> c = Some 2 \<Longrightarrow> \<not> line_terminator (digit c)"
  by (elim disjE; simp add: line_terminator_def digit_cases)

lemma regex_test_has_win:
  assumes "wf_board b"
  shows "regex_test win_regex (join b) = has_win b"
proof -
  from assms obtain c0 c1 c2 c3 c4 c5 c6 c7 c8 where
    b: "b = [c0, c1, c2, c3, c4, c5, c6, c7, c8]" by (rule wf_board_nine)
  have cells: "\<forall>c \<in> set [c0, c1, c2, c3, c4, c5, c6, c7, c8].
                 c = Some 0 \<or> c = Some 1 \<or> c = Some 2"
    using assms b by (simp add: wf_board_def)
  have j: "join b = [digit c0, digit c1, digit c2, digit c3, digit c4, digit c5,
                     digit c6, digit c7, digit c8]"
    unfolding join_def b using cells by (simp add: wf_cell_join del: show_nat.simps)
  have lt: "\<forall>c \<in> set [digit c0, digit c1, digit c2, digit c3, digit c4, digit c5,
                       digit c6, digit c7, digit c8]. \<not> line_terminator c"
    using cells by (simp add: digit_not_terminator)
  have w: "c0 = Some 0 \<or> c0 = Some 1 \<or> c0 = Some 2" "c1 = Some 0 \<or> c1 = Some 1 \<or> c1 = Some 2"
    "c2 = Some 0 \<or> c2 = Some 1 \<or> c2 = Some 2" "c3 = Some 0 \<or> c3 = Some 1 \<or> c3 = Some 2"
    "c4 = Some 0 \<or> c4 = Some 1 \<or> c4 = Some 2" "c5 = Some 0 \<or> c5 = Some 1 \<or> c5 = Some 2"
    "c6 = Some 0 \<or> c6 = Some 1 \<or> c6 = Some 2" "c7 = Some 0 \<or> c7 = Some 1 \<or> c7 = Some 2"
    "c8 = Some 0 \<or> c8 = Some 1 \<or> c8 = Some 2"
    using cells by simp_all
  have "regex_test win_regex (join b) \<longleftrightarrow>
          (c0 \<noteq> Some 0 \<and> c0 = c1 \<and> c1 = c2) \<or> (c3 \<noteq> Some 0 \<and> c3 = c4 \<and> c4 = c5) \<or>
          (c6 \<noteq> Some 0 \<and> c6 = c7 \<and> c7 = c8) \<or> (c0 \<noteq> Some 0 \<and> c0 = c3 \<and> c3 = c6) \<or>
          (c1 \<noteq> Some 0 \<and> c1 = c4 \<and> c4 = c7) \<or> (c2 \<noteq> Some 0 \<and> c2 = c5 \<and> c5 = c8) \<or>
          (c0 \<noteq> Some 0 \<and> c0 = c4 \<and> c4 = c8) \<or> (c2 \<noteq> Some 0 \<and> c2 = c4 \<and> c4 = c6)"
    unfolding j regex_test_win_regex run_win_rows [OF lt] run_win_cols [OF lt]
      run_win_diag [OF lt] run_win_anti [OF lt]
      digit_line [OF w(1) w(2) w(3)] digit_line [OF w(4) w(5) w(6)]
      digit_line [OF w(7) w(8) w(9)] digit_line [OF w(1) w(4) w(7)]
      digit_line [OF w(2) w(5) w(8)] digit_line [OF w(3) w(6) w(9)]
      digit_line [OF w(1) w(5) w(9)] digit_line [OF w(3) w(5) w(7)]
    by blast
  also have "\<dots> \<longleftrightarrow> has_win b"
    unfolding b has_win_def win_triples_def by simp
  finally show ?thesis .
qed

section \<open>What \<open>play\<close> and \<open>takeBack\<close> do\<close>

lemma cell_at_Some: "cell_at b m = Some v \<Longrightarrow> 0 \<le> m \<and> nat m < length b \<and> b ! nat m = Some v"
  by (auto simp: cell_at_def split: if_splits)

lemma fst_play: "fst (play m s) \<longleftrightarrow> cell_at (board s) m = Some 0 \<and> \<not> isWin s"
  by (cases "isWin s"; cases "cell_at (board s) m = Some 0"; simp add: play_def Let_def)

lemma play_fail: "\<not> fst (play m s) \<Longrightarrow> play m s = (False, s)"
  by (cases "isWin s"; cases "cell_at (board s) m = Some 0"; simp add: play_def Let_def)

lemma play_success:
  assumes "fst (play m s)"
  shows "board (snd (play m s)) = (board s)[nat m := Some (turn s)]"
    and "moves (snd (play m s)) = moves s @ [nat m]"
    and "isWin (snd (play m s)) = regex_test win_regex (join ((board s)[nat m := Some (turn s)]))"
    and "isDraw (snd (play m s)) = (\<not> isWin (snd (play m s)) \<and> Suc (length (moves s)) = length (board s))"
proof -
  from assms have c: "cell_at (board s) m = Some 0" and w: "\<not> isWin s"
    by (simp_all add: fst_play)
  from c have r: "nat m < length (board s)"
    using cell_at_Some by blast
  have "play m s = (True,
      \<lparr>board = (board s)[nat m := Some (turn s)], moves = moves s @ [nat m],
       isWin = regex_test win_regex (join ((board s)[nat m := Some (turn s)])),
       isDraw = (\<not> regex_test win_regex (join ((board s)[nat m := Some (turn s)])) \<and>
                 Suc (length (moves s)) = length (board s))\<rparr>)"
    using c w r by (simp add: play_def Let_def store_def)
  then show "board (snd (play m s)) = (board s)[nat m := Some (turn s)]"
    and "moves (snd (play m s)) = moves s @ [nat m]"
    and "isWin (snd (play m s)) = regex_test win_regex (join ((board s)[nat m := Some (turn s)]))"
    and "isDraw (snd (play m s)) = (\<not> isWin (snd (play m s)) \<and> Suc (length (moves s)) = length (board s))"
    by simp_all
qed

lemma takeBack_fail: "moves s = [] \<Longrightarrow> takeBack s = (False, s)"
  by (simp add: takeBack_def)

lemma takeBack_success:
  assumes "moves s \<noteq> []"
  shows "takeBack s = (True, \<lparr>board = store (board s) (last (moves s)) 0,
                   moves = butlast (moves s), isWin = False, isDraw = False\<rparr>)"
  using assms by (simp add: takeBack_def)

lemma play_takeBack:
  assumes "fst (play m s)" "\<not> isDraw s"
  shows "takeBack (snd (play m s)) = (True, s)"
proof -
  from assms(1) have c: "0 \<le> m" "nat m < length (board s)" "board s ! nat m = Some 0" and w: "\<not> isWin s"
    using cell_at_Some [of "board s" m 0] by (auto simp: fst_play)
  have "store ((board s)[nat m := Some (turn s)]) (nat m) 0 = board s"
    using c by (simp add: store_def list_update_same_conv)
  then show ?thesis
    using assms w by (simp add: takeBack_success play_success)
qed


subsection \<open>The invariant holds in every reachable state\<close>

lemma state_inv_D:
  assumes "state_inv s"
  shows "length (board s) = 9"
    and "\<And>c. c \<in> set (board s) \<Longrightarrow> c = Some 0 \<or> c = Some 1 \<or> c = Some 2"
    and "distinct (moves s)"
    and "\<And>i. i \<in> set (moves s) \<longleftrightarrow> i < 9 \<and> board s ! i \<noteq> Some 0"
    and "\<And>k. k < length (moves s) \<Longrightarrow> board s ! (moves s ! k) = Some (1 + k mod 2)"
    and "isDraw s = (\<not> isWin s \<and> length (moves s) = 9)"
  using assms by (auto simp: state_inv_def wf_board_def list_all_iff)

lemma state_inv_I:
  assumes "length (board s) = 9"
    and "\<And>c. c \<in> set (board s) \<Longrightarrow> c = Some 0 \<or> c = Some 1 \<or> c = Some 2"
    and "distinct (moves s)"
    and "\<And>i. i \<in> set (moves s) \<longleftrightarrow> i < 9 \<and> board s ! i \<noteq> Some 0"
    and "\<And>k. k < length (moves s) \<Longrightarrow> board s ! (moves s ! k) = Some (1 + k mod 2)"
    and "isDraw s = (\<not> isWin s \<and> length (moves s) = 9)"
  shows "state_inv s"
  using assms by (auto simp: state_inv_def wf_board_def list_all_iff)

lemma state_inv_length_moves:
  assumes "state_inv s"
  shows "length (moves s) \<le> 9"
proof -
  have "set (moves s) \<subseteq> {..<9}"
    using state_inv_D(4) [OF assms] by auto
  then have "card (set (moves s)) \<le> card {..<9::nat}"
    by (intro card_mono) auto
  then show ?thesis
    using state_inv_D(3) [OF assms] by (simp add: distinct_card)
qed

lemma state_inv_new_game: "state_inv new_game"
  by (rule state_inv_I) (auto simp: new_game_def)

lemma turn_cases: "turn s = 1 \<or> turn s = 2"
  by (simp add: turn_def) presburger

lemma state_inv_play:
  assumes inv: "state_inv s"
  shows "state_inv (snd (play m s))"
proof (cases "fst (play m s)")
  case False
  then show ?thesis using inv by (simp add: play_fail)
next
  case True
  let ?i = "nat m" and ?t = "turn s" and ?s' = "snd (play m s)"
  note D = state_inv_D [OF inv]
  from True have c: "?i < length (board s)" "board s ! ?i = Some 0"
    using cell_at_Some [of "board s" m 0] by (auto simp: fst_play)
  have b': "board ?s' = (board s)[?i := Some ?t]" and m': "moves ?s' = moves s @ [?i]"
    and d': "isDraw ?s' = (\<not> isWin ?s' \<and> Suc (length (moves s)) = length (board s))"
    using play_success [OF True] by simp_all
  have i9: "?i < 9" using c D(1) by simp
  have notin: "?i \<notin> set (moves s)" using c D(4) by simp
  have t: "?t = 1 \<or> ?t = 2" by (rule turn_cases)
  show ?thesis
  proof (rule state_inv_I)
    show "length (board ?s') = 9" using D(1) by (simp add: b')
    show "c = Some 0 \<or> c = Some 1 \<or> c = Some 2" if "c \<in> set (board ?s')" for c
    proof -
      from that have "c = Some ?t \<or> c \<in> set (board s)"
        unfolding b' using set_update_subset_insert [of "board s" ?i "Some ?t"] by auto
      then show ?thesis using t D(2) by auto
    qed
    show "distinct (moves ?s')" using D(3) notin by (simp add: m')
    show "i \<in> set (moves ?s') \<longleftrightarrow> i < 9 \<and> board ?s' ! i \<noteq> Some 0" for i
      using D(4) [of i] c i9 t D(1) by (auto simp: m' b' nth_list_update)
    show "board ?s' ! (moves ?s' ! k) = Some (1 + k mod 2)" if "k < length (moves ?s')" for k
    proof (cases "k < length (moves s)")
      case True
      then have "moves s ! k \<in> set (moves s)" by simp
      with notin have "moves s ! k \<noteq> ?i" by auto
      then show ?thesis using True D(5) [of k] by (simp add: m' b' nth_append)
    next
      case False
      with that have "k = length (moves s)" by (simp add: m')
      then show ?thesis using c by (simp add: m' b' turn_def)
    qed
    show "isDraw ?s' = (\<not> isWin ?s' \<and> length (moves ?s') = 9)"
      using D(1) by (simp add: d' m')
  qed
qed

lemma last_notin_butlast: "distinct xs \<Longrightarrow> xs \<noteq> [] \<Longrightarrow> last xs \<notin> set (butlast xs)"
  by (induction xs) auto

lemma set_butlast_last: "xs \<noteq> [] \<Longrightarrow> set xs = insert (last xs) (set (butlast xs))"
  by (induction xs) auto

lemma state_inv_takeBack:
  assumes inv: "state_inv s"
  shows "state_inv (snd (takeBack s))"
proof (cases "moves s = []")
  case True
  then show ?thesis using inv by (simp add: takeBack_fail)
next
  case False
  let ?l = "last (moves s)" and ?s' = "snd (takeBack s)"
  note D = state_inv_D [OF inv]
  from False have lin: "?l \<in> set (moves s)" by simp
  then have l9: "?l < 9" using D(4) by simp
  have b': "board ?s' = (board s)[?l := Some 0]" and m': "moves ?s' = butlast (moves s)"
    and f': "\<not> isWin ?s'" "\<not> isDraw ?s'"
    using False l9 D(1) by (simp_all add: takeBack_success store_def)
  have notin: "?l \<notin> set (butlast (moves s))"
    using D(3) False by (rule last_notin_butlast)
  have setb: "set (moves s) = insert ?l (set (butlast (moves s)))"
    using False by (rule set_butlast_last)
  show ?thesis
  proof (rule state_inv_I)
    show "length (board ?s') = 9" using D(1) by (simp add: b')
    show "c = Some 0 \<or> c = Some 1 \<or> c = Some 2" if "c \<in> set (board ?s')" for c
    proof -
      from that have "c = Some 0 \<or> c \<in> set (board s)"
        unfolding b' using set_update_subset_insert [of "board s" ?l "Some 0"] by auto
      then show ?thesis using D(2) by auto
    qed
    show "distinct (moves ?s')" using D(3) by (simp add: m' distinct_butlast)
    show "i \<in> set (moves ?s') \<longleftrightarrow> i < 9 \<and> board ?s' ! i \<noteq> Some 0" for i
      using D(4) [of i] l9 D(1) notin setb by (auto simp: m' b' nth_list_update)
    show "board ?s' ! (moves ?s' ! k) = Some (1 + k mod 2)" if "k < length (moves ?s')" for k
    proof -
      from that have k: "k < length (butlast (moves s))" by (simp add: m')
      then have "butlast (moves s) ! k \<in> set (butlast (moves s))" by (rule nth_mem)
      with notin have ne: "butlast (moves s) ! k \<noteq> ?l" by auto
      have eq: "butlast (moves s) ! k = moves s ! k" using k by (simp add: nth_butlast)
      have "k < length (moves s)" using k by simp
      then show ?thesis using D(5) [of k] ne eq by (simp add: m' b')
    qed
    show "isDraw ?s' = (\<not> isWin ?s' \<and> length (moves ?s') = 9)"
      using f' state_inv_length_moves [OF inv] False by (auto simp: m')
  qed
qed

lemma reachable_inv: "reachable s \<Longrightarrow> state_inv s"
  by (induction rule: reachable.induct)
     (simp_all add: state_inv_new_game state_inv_play state_inv_takeBack)


lemma reachable_foldl_play:
  "reachable s \<Longrightarrow> reachable (foldl (\<lambda>s m. snd (play m s)) s ms)"
  by (induction ms arbitrary: s) (simp_all add: reachable.played)

lemma reachable_after_plays: "reachable (after_plays ms)"
  unfolding after_plays_def by (rule reachable_foldl_play) (rule reachable.fresh)

section \<open>The claims about the game state\<close>

text \<open>
  C3: in a reachable state that is neither won nor drawn, a successful \<open>play\<close> followed at
  once by \<open>takeBack\<close> succeeds and gives back the state as it was: board, history,
  \<open>isWin\<close> and \<open>isDraw\<close>.
\<close>

theorem play_then_takeBack_restores:
  "reachable s \<Longrightarrow> \<not> isWin s \<Longrightarrow> \<not> isDraw s \<Longrightarrow> fst (play m s) \<Longrightarrow>
     takeBack (snd (play m s)) = (True, s)"
  by (rule play_takeBack)

lemma after_4_0:
  "\<not> isWin (after_plays [4, 0])" "\<not> isDraw (after_plays [4, 0])"
  "fst (play 8 (after_plays [4, 0]))"
  by code_simp+

theorem play_then_takeBack_restores_witness:
  "reachable (after_plays [4, 0]) \<and> \<not> isWin (after_plays [4, 0]) \<and>
   \<not> isDraw (after_plays [4, 0]) \<and> fst (play 8 (after_plays [4, 0])) \<and>
   takeBack (snd (play 8 (after_plays [4, 0]))) = (True, after_plays [4, 0])"
  using play_then_takeBack_restores [OF reachable_after_plays after_4_0]
    reachable_after_plays [of "[4, 0]"] after_4_0
  by simp

lemma play_fails_iff_cell:
  assumes "length (board s) = 9" "0 \<le> m" "m \<le> 8"
  shows "(\<not> fst (play m s)) = (board s ! nat m \<noteq> Some 0 \<or> isWin s)"
  using assms by (auto simp: fst_play cell_at_def)

text \<open>
  C5: in a reachable state, for a cell index \<open>m\<close> from 0 to 8, \<open>play m\<close> fails exactly
  when cell \<open>m\<close> is not empty or the game is won; a failed \<open>play\<close> leaves the state
  (board, history, \<open>isWin\<close>, \<open>isDraw\<close>) as it was.
\<close>
theorem play_fails_iff:
  "reachable s \<Longrightarrow> 0 \<le> m \<Longrightarrow> m \<le> 8 \<Longrightarrow>
     (\<not> fst (play m s)) = (board s ! nat m \<noteq> Some 0 \<or> isWin s) \<and>
     (\<not> fst (play m s) \<longrightarrow> snd (play m s) = s)"
  using play_fails_iff_cell [of s m] state_inv_D(1) [OF reachable_inv, of s]
  by (simp add: play_fail)

lemma after_4:
  "\<not> fst (play 4 (after_plays [4]))" "board (after_plays [4]) ! nat 4 \<noteq> Some 0"
  "\<not> isWin (after_plays [4])"
  by code_simp+

theorem play_fails_iff_witness:
  "reachable (after_plays [4]) \<and> (0::int) \<le> 4 \<and> (4::int) \<le> 8 \<and>
   \<not> fst (play 4 (after_plays [4])) \<and> board (after_plays [4]) ! nat 4 \<noteq> Some 0 \<and>
   \<not> isWin (after_plays [4]) \<and> snd (play 4 (after_plays [4])) = after_plays [4]"
  using play_fails_iff [OF reachable_after_plays, of 4 "[4]"] reachable_after_plays [of "[4]"]
    after_4
  by simp

text \<open>
  C7: in a reachable state \<open>isWin\<close> and \<open>isDraw\<close> are never both true, and \<open>isDraw\<close>
  is true exactly when \<open>isWin\<close> is false and the history has 9 entries.
\<close>
theorem win_and_draw_exclusive:
  "reachable s \<Longrightarrow>
     \<not> (isWin s \<and> isDraw s) \<and> isDraw s = (\<not> isWin s \<and> length (moves s) = 9)"
  using state_inv_D(6) [OF reachable_inv, of s] by auto

lemma drawn_game:
  "after_plays [0, 1, 2, 4, 3, 5, 7, 6, 8] =
     \<lparr>board = [Some 1, Some 2, Some 1, Some 1, Some 2, Some 2, Some 2, Some 1, Some 1],
      moves = [0, 1, 2, 4, 3, 5, 7, 6, 8], isWin = False, isDraw = True\<rparr>"
  by code_simp

theorem win_and_draw_exclusive_witness:
  "reachable (after_plays [0, 1, 2, 4, 3, 5, 7, 6, 8]) \<and>
   isDraw (after_plays [0, 1, 2, 4, 3, 5, 7, 6, 8]) \<and>
   \<not> isWin (after_plays [0, 1, 2, 4, 3, 5, 7, 6, 8]) \<and>
   length (moves (after_plays [0, 1, 2, 4, 3, 5, 7, 6, 8])) = 9"
  using win_and_draw_exclusive [OF reachable_after_plays, of "[0, 1, 2, 4, 3, 5, 7, 6, 8]"]
    reachable_after_plays [of "[0, 1, 2, 4, 3, 5, 7, 6, 8]"]
  by (simp add: drawn_game)

lemma nonempty_cells_count:
  assumes "state_inv s"
  shows "length (filter (\<lambda>c. c \<noteq> Some 0) (board s)) = length (moves s)"
proof -
  note D = state_inv_D [OF assms]
  have "length (filter (\<lambda>c. c \<noteq> Some 0) (board s)) =
          card {i. i < length (board s) \<and> board s ! i \<noteq> Some 0}"
    by (rule length_filter_conv_card)
  also have "{i. i < length (board s) \<and> board s ! i \<noteq> Some 0} = set (moves s)"
    using D(1) D(4) by auto
  also have "card (set (moves s)) = length (moves s)"
    using D(3) by (rule distinct_card)
  finally show ?thesis .
qed

text \<open>
  C8: in a reachable state exactly as many cells are not empty as the history has
  entries, the history has no duplicates, the cells that are not empty are exactly the
  indices in the history, and the cell of entry \<open>k\<close> holds the mark of player
  \<open>1 + k mod 2\<close>.
\<close>
theorem board_matches_history:
  "reachable s \<Longrightarrow>
     length (filter (\<lambda>c. c \<noteq> Some 0) (board s)) = length (moves s) \<and>
     distinct (moves s) \<and>
     {i. i < length (board s) \<and> board s ! i \<noteq> Some 0} = set (moves s) \<and>
     (\<forall>k < length (moves s). board s ! (moves s ! k) = Some (1 + k mod 2))"
  using nonempty_cells_count [OF reachable_inv, of s] state_inv_D [OF reachable_inv, of s]
  by auto

lemma after_4_0_8:
  "after_plays [4, 0, 8] =
     \<lparr>board = [Some 2, Some 0, Some 0, Some 0, Some 1, Some 0, Some 0, Some 0, Some 1],
      moves = [4, 0, 8], isWin = False, isDraw = False\<rparr>"
  by code_simp

theorem board_matches_history_witness:
  "reachable (after_plays [4, 0, 8]) \<and>
   length (filter (\<lambda>c. c \<noteq> Some 0) (board (after_plays [4, 0, 8]))) = 3 \<and>
   moves (after_plays [4, 0, 8]) = [4, 0, 8] \<and>
   {i. i < length (board (after_plays [4, 0, 8])) \<and> board (after_plays [4, 0, 8]) ! i \<noteq> Some 0}
     = {4, 0, 8} \<and>
   board (after_plays [4, 0, 8]) ! 4 = Some 1 \<and> board (after_plays [4, 0, 8]) ! 0 = Some 2 \<and>
   board (after_plays [4, 0, 8]) ! 8 = Some 1"
  using board_matches_history [OF reachable_after_plays, of "[4, 0, 8]"]
    reachable_after_plays [of "[4, 0, 8]"]
  by (simp add: after_4_0_8)

text \<open>
  C9: in a reachable state \<open>takeBack\<close> fails exactly when the history is empty, and then
  leaves the state as it was; when it succeeds it drops the last entry of the history,
  sets that cell to empty and clears both \<open>isWin\<close> and \<open>isDraw\<close>, whatever they were.
\<close>
theorem takeBack_behaviour:
  "reachable s \<Longrightarrow>
     (\<not> fst (takeBack s)) = (moves s = []) \<and>
     (moves s = [] \<longrightarrow> snd (takeBack s) = s) \<and>
     (moves s \<noteq> [] \<longrightarrow>
        moves (snd (takeBack s)) = butlast (moves s) \<and>
        board (snd (takeBack s)) = (board s)[last (moves s) := Some 0] \<and>
        board (snd (takeBack s)) ! last (moves s) = Some 0 \<and>
        \<not> isWin (snd (takeBack s)) \<and> \<not> isDraw (snd (takeBack s)))"
proof -
  assume r: "reachable s"
  note D = state_inv_D [OF reachable_inv [OF r]]
  have l: "last (moves s) < length (board s)" if "moves s \<noteq> []"
    using that D(1) D(4) [of "last (moves s)"] by simp
  show ?thesis
    using l by (cases "moves s = []") (simp_all add: takeBack_fail takeBack_success store_def)
qed

lemma won_game:
  "after_plays [0, 3, 1, 4, 2] =
     \<lparr>board = [Some 1, Some 1, Some 1, Some 2, Some 2, Some 0, Some 0, Some 0, Some 0],
      moves = [0, 3, 1, 4, 2], isWin = True, isDraw = False\<rparr>"
  by code_simp

theorem takeBack_behaviour_witness:
  "reachable (after_plays [0, 3, 1, 4, 2]) \<and> isWin (after_plays [0, 3, 1, 4, 2]) \<and>
   fst (takeBack (after_plays [0, 3, 1, 4, 2])) \<and>
   moves (snd (takeBack (after_plays [0, 3, 1, 4, 2]))) = [0, 3, 1, 4] \<and>
   board (snd (takeBack (after_plays [0, 3, 1, 4, 2]))) =
     [Some 1, Some 1, Some 0, Some 2, Some 2, Some 0, Some 0, Some 0, Some 0] \<and>
   \<not> isWin (snd (takeBack (after_plays [0, 3, 1, 4, 2]))) \<and>
   \<not> isDraw (snd (takeBack (after_plays [0, 3, 1, 4, 2])))"
  using takeBack_behaviour [OF reachable_after_plays, of "[0, 3, 1, 4, 2]"]
    reachable_after_plays [of "[0, 3, 1, 4, 2]"]
  by (simp add: won_game)

lemma play_outside:
  assumes "length (board s) = 9" "m < 0 \<or> 8 < m"
  shows "play m s = (False, s)"
  using assms by (auto simp: play_def cell_at_def)

text \<open>
  C10: in a reachable state, \<open>play\<close> with an argument below 0 or above 8 fails and
  leaves the state as it was.
\<close>
theorem play_out_of_range:
  "reachable s \<Longrightarrow> m < 0 \<or> 8 < m \<Longrightarrow> play m s = (False, s)"
  using play_outside [of s m] state_inv_D(1) [OF reachable_inv, of s] by simp

theorem play_out_of_range_witness:
  "reachable (after_plays [4, 0]) \<and> (8::int) < 9 \<and> (- 1::int) < 0 \<and>
   play 9 (after_plays [4, 0]) = (False, after_plays [4, 0]) \<and>
   play (- 1) (after_plays [4, 0]) = (False, after_plays [4, 0])"
  using play_out_of_range [OF reachable_after_plays, of 9 "[4, 0]"]
    play_out_of_range [OF reachable_after_plays, of "- 1" "[4, 0]"]
    reachable_after_plays [of "[4, 0]"]
  by simp

lemma play_isWin_has_win:
  assumes "state_inv s" "fst (play m s)"
  shows "isWin (snd (play m s)) = has_win (board (snd (play m s)))"
proof -
  have "wf_board (board (snd (play m s)))"
    using state_inv_play [OF assms(1), of m] by (simp add: state_inv_def)
  then show ?thesis
    using play_success(1,3) [OF assms(2)] regex_test_has_win by simp
qed

text \<open>
  C4: after a successful \<open>play\<close> from a reachable state, \<open>isWin\<close> is true exactly when
  one of the eight index triples holds three equal cells that are not empty; and on
  every board of nine cells that are 0, 1 or 2 the regular-expression test of the joined
  board gives the same answer as that enumeration.
\<close>
theorem isWin_is_line_test:
  "reachable s \<Longrightarrow>
     (fst (play m s) \<longrightarrow> isWin (snd (play m s)) = has_win (board (snd (play m s)))) \<and>
     (\<forall>b. wf_board b \<longrightarrow> regex_test win_regex (join b) = has_win b)"
  using play_isWin_has_win [OF reachable_inv, of s m] regex_test_has_win
  by simp

lemma top_row:
  "fst (play 2 (after_plays [0, 4, 1, 6]))"
  "board (snd (play 2 (after_plays [0, 4, 1, 6]))) =
     [Some 1, Some 1, Some 1, Some 0, Some 2, Some 0, Some 2, Some 0, Some 0]"
  "has_win [Some 1, Some 1, Some 1, Some 0, Some 2, Some 0, Some 2, Some 0, Some 0]"
  by code_simp+

lemma drawn_board:
  "wf_board [Some 1, Some 2, Some 1, Some 1, Some 2, Some 2, Some 2, Some 1, Some 1]"
  "\<not> has_win [Some 1, Some 2, Some 1, Some 1, Some 2, Some 2, Some 2, Some 1, Some 1]"
  by code_simp+

theorem isWin_is_line_test_witness:
  "reachable (after_plays [0, 4, 1, 6]) \<and> fst (play 2 (after_plays [0, 4, 1, 6])) \<and>
   isWin (snd (play 2 (after_plays [0, 4, 1, 6]))) \<and>
   has_win (board (snd (play 2 (after_plays [0, 4, 1, 6])))) \<and>
   wf_board [Some 1, Some 2, Some 1, Some 1, Some 2, Some 2, Some 2, Some 1, Some 1] \<and>
   \<not> regex_test win_regex
       (join [Some 1, Some 2, Some 1, Some 1, Some 2, Some 2, Some 2, Some 1, Some 1])"
  using isWin_is_line_test [OF reachable_after_plays, of 2 "[0, 4, 1, 6]"]
    reachable_after_plays [of "[0, 4, 1, 6]"] top_row drawn_board
  by simp


section \<open>What the search returns\<close>

text \<open>
  The equation of \<open>minimax\<close> calls \<open>minimax\<close> again, so it is unfolded by hand, at the
  depth in question.
\<close>

declare minimax.simps [simp del]

lemma le_PosInf [simp]: "x \<le> PosInf"
  by (cases x) simp_all

lemma NegInf_le [simp]: "NegInf \<le> x"
  by (cases x) simp_all

lemma PosInf_le [simp]: "PosInf \<le> x \<longleftrightarrow> x = PosInf"
  by (cases x) simp_all

lemma le_NegInf [simp]: "x \<le> NegInf \<longleftrightarrow> x = NegInf"
  by (cases x) simp_all

lemma uminus_eq_NegInf [simp]: "- x = NegInf \<longleftrightarrow> x = PosInf"
  by (cases x) simp_all

lemma uminus_eq_PosInf [simp]: "- x = PosInf \<longleftrightarrow> x = NegInf"
  by (cases x) simp_all

lemma max_eq_PosInf: "max a v = PosInf \<longleftrightarrow> a = PosInf \<or> v = PosInf"
  by (cases a; cases v) (simp_all add: max_def)

lemma zip_upt_nth: "zip xs [0..<length xs] = map (\<lambda>i. (xs ! i, i)) [0..<length xs]"
  by (rule nth_equalityI) simp_all

lemma filter_marked:
  "filter (\<lambda>index. index \<noteq> - 1) (map (\<lambda>i. if P i then int i else - 1) xs) =
     map int (filter P xs)"
  by (induction xs) auto

lemma validMoves_eq:
  "validMoves s = map int (filter (\<lambda>i. board s ! i = Some 0) [0..<length (board s)])"
  by (simp add: validMoves_def zip_upt_nth o_def filter_marked)

lemma validMoves_cell: "m \<in> set (validMoves s) \<Longrightarrow> cell_at (board s) m = Some 0"
  by (auto simp: validMoves_eq cell_at_def)

lemma validMoves_nonempty:
  assumes inv: "state_inv s" and "\<not> isWin s" "\<not> isDraw s"
  shows "validMoves s \<noteq> []"
proof -
  note D = state_inv_D [OF inv]
  have "length (moves s) \<noteq> 9" using assms D(6) by simp
  then have "card (set (moves s)) \<noteq> card {..<9::nat}"
    using D(3) by (simp add: distinct_card)
  then have "set (moves s) \<noteq> {..<9}" by metis
  moreover have "set (moves s) \<subseteq> {..<9}" using D(4) by auto
  ultimately obtain i where "i < 9" "i \<notin> set (moves s)" by auto
  then have "i < length (board s)" "board s ! i = Some 0" using D(1) D(4) [of i] by auto
  then have "int i \<in> set (validMoves s)" by (simp add: validMoves_eq)
  then show ?thesis by auto
qed


lemma best_ok_start: "best_ok M (Result NegInf None)"
  by (simp add: best_ok_def)

lemma minimax_loop_ok:
  assumes rec: "\<And>a b s'. state_inv s' \<Longrightarrow>
                  \<exists>res. rec a b s' = Inr (res, s') \<and> res_value res \<noteq> PosInf"
    and inv: "state_inv s" and nw: "\<not> isWin s" and nd: "\<not> isDraw s"
  shows "set ms \<subseteq> M \<Longrightarrow> \<forall>m \<in> set ms. cell_at (board s) m = Some 0 \<Longrightarrow> best_ok M best \<Longrightarrow>
           \<exists>res. minimax_loop rec beta ms alpha best s = Inr (res, s) \<and> best_ok M res \<and>
                 (res_moves best \<noteq> None \<longrightarrow> res_moves res \<noteq> None)"
proof (induction ms arbitrary: alpha best)
  case Nil
  then show ?case by simp
next
  case (Cons m ms)
  let ?s1 = "snd (play m s)"
  have fp: "fst (play m s)" using Cons.prems(2) nw by (simp add: fst_play)
  have "state_inv ?s1" using inv by (rule state_inv_play)
  from rec [OF this, of "- beta" "- alpha"] obtain child where
    c: "rec (- beta) (- alpha) ?s1 = Inr (child, ?s1)" and cv: "res_value child \<noteq> PosInf"
    by blast
  have tb: "snd (takeBack ?s1) = s" using play_takeBack [OF fp nd] by simp
  define v where "v = - res_value child"
  define alpha' where "alpha' = max alpha v"
  have vn: "v \<noteq> NegInf" using cv by (simp add: v_def)
  have rest: "set ms \<subseteq> M" "\<forall>m \<in> set ms. cell_at (board s) m = Some 0" and mM: "m \<in> M"
    using Cons.prems by simp_all
  have step: "minimax_loop rec beta (m # ms) alpha best s =
      (if beta \<le> alpha' then Inr (best, s)
       else if res_value best \<le> v then
         (case res_moves (if res_value best < v then Result v (Some []) else best) of
            None \<Rightarrow> Inl TypeError
          | Some bm \<Rightarrow>
              minimax_loop rec beta ms alpha'
                (Result (res_value (if res_value best < v then Result v (Some []) else best))
                   (Some (bm @ [m]))) s)
       else minimax_loop rec beta ms alpha' best s)"
    using c tb by (simp add: Let_def v_def alpha'_def split: option.split)
  show ?case
  proof (cases "beta \<le> alpha'")
    case True
    then show ?thesis using step Cons.prems(3) by simp
  next
    case nb: False
    then have vp: "v \<noteq> PosInf" by (auto simp: alpha'_def max_eq_PosInf)
    show ?thesis
    proof (cases "res_value best \<le> v")
      case False
      then show ?thesis
        using step nb Cons.IH [OF rest Cons.prems(3), of alpha'] by simp
    next
      case le: True
      show ?thesis
      proof (cases "res_value best < v")
        case True
        have ok: "best_ok M (Result v (Some [m]))"
          using vp vn mM by (simp add: best_ok_def)
        from Cons.IH [OF rest ok, of alpha'] show ?thesis
          using step nb le True by auto
      next
        case False
        with le have eq: "res_value best = v" by simp
        with vn Cons.prems(3) obtain bm where
          bm: "res_moves best = Some bm" "bm \<noteq> []" "set bm \<subseteq> M"
          by (auto simp: best_ok_def split: option.splits)
        have ok: "best_ok M (Result (res_value best) (Some (bm @ [m])))"
          using vp vn mM bm eq by (simp add: best_ok_def)
        from Cons.IH [OF rest ok, of alpha'] show ?thesis
          using step nb le False bm by auto
      qed
    qed
  qed
qed

lemma minimax_returns:
  "state_inv s \<Longrightarrow> \<exists>res. minimax d a b s = Inr (res, s) \<and> res_value res \<noteq> PosInf"
proof (induction d arbitrary: a b s)
  case 0
  then show ?case by (simp add: minimax.simps [of 0])
next
  case (Suc d)
  show ?case
  proof (cases "isWin s \<or> isDraw s")
    case True
    then show ?thesis by (auto simp: minimax.simps [of "Suc d"])
  next
    case False
    then have nw: "\<not> isWin s" and nd: "\<not> isDraw s" by simp_all
    have "\<exists>res. minimax_loop (minimax d) b (validMoves s) a (Result NegInf None) s = Inr (res, s) \<and>
            best_ok (set (validMoves s)) res \<and>
            (res_moves (Result NegInf None) \<noteq> None \<longrightarrow> res_moves res \<noteq> None)"
      using Suc.IH Suc.prems nw nd
      by (intro minimax_loop_ok) (auto simp: validMoves_cell best_ok_start)
    then show ?thesis
      using False by (auto simp: minimax.simps [of "Suc d"] best_ok_def)
  qed
qed


lemma minimax_full_window:
  "state_inv s \<Longrightarrow>
     \<exists>res. minimax d NegInf PosInf s = Inr (res, s) \<and>
           res_value res \<noteq> NegInf \<and> res_value res \<noteq> PosInf \<and>
           (\<not> isWin s \<and> \<not> isDraw s \<and> 0 < d \<longrightarrow>
              (\<exists>ms. res_moves res = Some ms \<and> ms \<noteq> [] \<and> set ms \<subseteq> set (validMoves s)))"
proof (induction d arbitrary: s)
  case 0
  then show ?case by (simp add: minimax.simps [of 0])
next
  case (Suc d)
  show ?case
  proof (cases "isWin s \<or> isDraw s")
    case True
    then show ?thesis by (auto simp: minimax.simps [of "Suc d"])
  next
    case False
    then have nw: "\<not> isWin s" and nd: "\<not> isDraw s" by simp_all
    let ?M = "set (validMoves s)"
    from validMoves_nonempty [OF Suc.prems nw nd] obtain m rest where
      vm: "validMoves s = m # rest" by (cases "validMoves s") auto
    have cells: "\<forall>m \<in> set (validMoves s). cell_at (board s) m = Some 0"
      by (simp add: validMoves_cell)
    let ?s1 = "snd (play m s)"
    have fp: "fst (play m s)" using cells nw by (simp add: fst_play vm)
    have inv1: "state_inv ?s1" using Suc.prems by (rule state_inv_play)
    from Suc.IH [OF inv1] obtain child where
      c: "minimax d NegInf PosInf ?s1 = Inr (child, ?s1)"
      and cv: "res_value child \<noteq> NegInf" "res_value child \<noteq> PosInf"
      by blast
    have tb: "snd (takeBack ?s1) = s" using play_takeBack [OF fp nd] by simp
    define v where "v = - res_value child"
    have v: "v \<noteq> NegInf" "v \<noteq> PosInf" using cv by (simp_all add: v_def)
    then have lt: "NegInf < v" by (cases v) (simp_all add: less_num_def)
    have first: "minimax_loop (minimax d) PosInf (m # rest) NegInf (Result NegInf None) s =
                   minimax_loop (minimax d) PosInf rest v (Result v (Some [m])) s"
      using c tb v lt by (simp add: Let_def v_def max_def)
    have ok: "best_ok ?M (Result v (Some [m]))"
      using v by (simp add: best_ok_def vm)
    have "\<exists>res. minimax_loop (minimax d) PosInf rest v (Result v (Some [m])) s = Inr (res, s) \<and>
            best_ok ?M res \<and> (res_moves (Result v (Some [m])) \<noteq> None \<longrightarrow> res_moves res \<noteq> None)"
      using Suc.prems nw nd ok cells
      by (intro minimax_loop_ok minimax_returns) (auto simp: vm)
    then obtain res where
      r: "minimax_loop (minimax d) PosInf rest v (Result v (Some [m])) s = Inr (res, s)"
      and rok: "best_ok ?M res" and rm: "res_moves res \<noteq> None"
      by auto
    have "minimax (Suc d) NegInf PosInf s = Inr (res, s)"
      using False first r by (simp add: minimax.simps [of "Suc d"] vm)
    then show ?thesis
      using rok rm by (auto simp: best_ok_def split: option.splits)
  qed
qed

text \<open>The index that the rounded product gives stays below the length.\<close>

declare bitlen.simps [simp del]

lemma bitlen_bounds: "0 < n \<Longrightarrow> 2 ^ (bitlen n - 1) \<le> n \<and> n < 2 ^ bitlen n"
proof (induction n rule: bitlen.induct)
  case (1 n)
  show ?case
  proof (cases "n div 2 = 0")
    case True
    with "1.prems" have "n = 1" by (simp add: div_eq_0_iff) 
    then show ?thesis by (simp add: bitlen.simps [of "Suc 0"] bitlen.simps [of 0])
  next
    case False
    then have h: "0 < n div 2" by simp
    from "1.IH" [OF _ h] "1.prems"
    have ih: "2 ^ (bitlen (n div 2) - 1) \<le> n div 2" "n div 2 < 2 ^ bitlen (n div 2)" by simp_all
    have b: "bitlen n = Suc (bitlen (n div 2))" using "1.prems" by (simp add: bitlen.simps [of n])
    have pos: "0 < bitlen (n div 2)" using h by (simp add: bitlen.simps [of "n div 2"])
    then have e: "(2::nat) ^ (bitlen n - 1) = 2 * 2 ^ (bitlen (n div 2) - 1)"
      using b by (cases "bitlen (n div 2)") simp_all
    have e': "(2::nat) ^ bitlen n = 2 * 2 ^ bitlen (n div 2)" using b by simp
    have d1: "2 * (n div 2) \<le> n" by simp
    have d2: "n < 2 * (n div 2) + 2" using div_mult_mod_eq [of n 2] by linarith
    have "2 * 2 ^ (bitlen (n div 2) - 1) \<le> n" using ih(1) d1 by linarith
    moreover have "n < 2 * 2 ^ bitlen (n div 2)" using ih(2) d2 by linarith
    ultimately show ?thesis unfolding e e' by simp
  qed
qed

lemma bitlen_ge: "2 ^ k \<le> n \<Longrightarrow> k < bitlen n"
proof -
  assume a: "2 ^ k \<le> n"
  then have "0 < n" by (metis less_le_trans zero_less_numeral zero_less_power)
  from bitlen_bounds [OF this] a have "(2::nat) ^ k < 2 ^ bitlen n" by linarith
  then show ?thesis by simp
qed

text \<open>
  The rounding is exact on a numerator of at most 53 bits; on a longer one it gives a
  multiple of the unit of the last place kept that is at most half a unit away.
\<close>

lemma round53_exact: "n < 2 ^ 53 \<Longrightarrow> round53 n = n"
  by (simp add: round53_def)

lemma round53_nearest:
  assumes big: "2 ^ 53 \<le> n"
  shows "2 ^ (bitlen n - 53) dvd round53 n"
    and "2 * (round53 n - n) \<le> 2 ^ (bitlen n - 53)"
    and "2 * (n - round53 n) \<le> 2 ^ (bitlen n - 53)"
proof -
  define s where "s = bitlen n - 53"
  define q where "q = n div 2 ^ s"
  define rest where "rest = n mod 2 ^ s"
  have "53 < bitlen n" using big by (rule bitlen_ge)
  then have s: "0 < s" by (simp add: s_def)
  have n: "n = q * 2 ^ s + rest"
    using div_mult_mod_eq [of n "2 ^ s"] by (simp add: q_def rest_def)
  have two: "(2::nat) ^ s = 2 * 2 ^ (s - 1)" using s by (cases s) simp_all
  have r: "round53 n =
      (if rest > 2 ^ (s - 1) \<or> (rest = 2 ^ (s - 1) \<and> odd q) then q + 1 else q) * 2 ^ s"
    using big by (simp add: round53_def Let_def s_def q_def rest_def)
  have lt: "rest < 2 ^ s" by (simp add: rest_def)
  show "2 ^ (bitlen n - 53) dvd round53 n"
    unfolding s_def [symmetric] r by simp
  show "2 * (round53 n - n) \<le> 2 ^ (bitlen n - 53)"
    unfolding s_def [symmetric]
  proof (cases "rest > 2 ^ (s - 1) \<or> (rest = 2 ^ (s - 1) \<and> odd q)")
    case True
    then have "2 ^ (s - 1) \<le> rest" by auto
    moreover have "round53 n = q * 2 ^ s + 2 ^ s" using True r by (simp add: algebra_simps)
    ultimately show "2 * (round53 n - n) \<le> 2 ^ s" using n two by linarith
  next
    case False
    then have "round53 n = q * 2 ^ s" using r by simp
    then show "2 * (round53 n - n) \<le> 2 ^ s" using n by simp
  qed
  show "2 * (n - round53 n) \<le> 2 ^ (bitlen n - 53)"
    unfolding s_def [symmetric]
  proof (cases "rest > 2 ^ (s - 1) \<or> (rest = 2 ^ (s - 1) \<and> odd q)")
    case True
    then have "round53 n = q * 2 ^ s + 2 ^ s" using r by (simp add: algebra_simps)
    then show "2 * (n - round53 n) \<le> 2 ^ s" using n lt by simp
  next
    case False
    then have "rest \<le> 2 ^ (s - 1)" by auto
    moreover from False have "round53 n = q * 2 ^ s" using r by simp
    ultimately show "2 * (n - round53 n) \<le> 2 ^ s" using n two by linarith
  qed
qed

lemma round53_bound: "2 ^ 53 * round53 n \<le> (2 ^ 53 + 1) * n"
proof (cases "n < 2 ^ 53")
  case True
  then show ?thesis by (simp add: round53_def)
next
  case False
  then have big: "2 ^ 53 \<le> n" by simp
  define s where "s = bitlen n - 53"
  define q where "q = n div 2 ^ s"
  define rest where "rest = n mod 2 ^ s"
  have bl: "53 < bitlen n" using big by (rule bitlen_ge)
  then have s: "0 < s" "bitlen n - 1 = (s - 1) + 53" by (simp_all add: s_def)
  have n: "n = q * 2 ^ s + rest"
    using div_mult_mod_eq [of n "2 ^ s"] by (simp add: q_def rest_def)
  have two: "(2::nat) ^ s = 2 * 2 ^ (s - 1)" using s(1) by (cases s) simp_all
  have "0 < n" using big by (metis less_le_trans zero_less_numeral zero_less_power)
  from bitlen_bounds [OF this] s(2) have "2 ^ ((s - 1) + 53) \<le> n" by simp
  then have half: "2 ^ 53 * 2 ^ (s - 1) \<le> n" by (simp add: power_add mult.commute)
  have r: "round53 n = (if rest > 2 ^ (s - 1) \<or> (rest = 2 ^ (s - 1) \<and> odd q) then q + 1 else q) * 2 ^ s"
    using False by (simp add: round53_def Let_def s_def q_def rest_def)
  have "round53 n \<le> n + 2 ^ (s - 1)"
  proof (cases "rest > 2 ^ (s - 1) \<or> (rest = 2 ^ (s - 1) \<and> odd q)")
    case True
    then have "2 ^ (s - 1) \<le> rest" by auto
    moreover have "round53 n = q * 2 ^ s + 2 ^ s" using True r by (simp add: algebra_simps)
    ultimately show ?thesis using n two by linarith
  next
    case False
    then have "round53 n = q * 2 ^ s" using r by simp
    then show ?thesis using n by linarith
  qed
  then have "2 ^ 53 * round53 n \<le> 2 ^ 53 * n + 2 ^ 53 * 2 ^ (s - 1)"
    by (metis add_mult_distrib2 mult_le_mono2)
  then show ?thesis using half by (simp add: algebra_simps)
qed

lemma random_index_less:
  assumes "is_random r" "0 < n"
  shows "random_index r n < n"
proof -
  define P :: nat where "P = 2 ^ 53"
  define m where "m = mantissa r"
  define k where "k = places r"
  from assms(1) have m: "Suc m \<le> P" "Suc m \<le> 2 ^ k"
    by (simp_all add: is_random_def P_def m_def k_def)
  have P0: "0 < P" by (simp add: P_def)
  have "(P + 1) * m < P * Suc m" using m(1) by (simp add: algebra_simps)
  also have "\<dots> \<le> P * 2 ^ k" using m(2) by (rule mult_le_mono2)
  finally have "(P + 1) * m * n < P * 2 ^ k * n" using assms(2) by simp
  moreover have "P * round53 (m * n) \<le> (P + 1) * (m * n)"
    unfolding P_def by (rule round53_bound)
  moreover have "(P + 1) * (m * n) = (P + 1) * m * n" by (rule mult.assoc [symmetric])
  ultimately have "P * round53 (m * n) < P * 2 ^ k * n" by linarith
  then have "P * round53 (m * n) < P * (n * 2 ^ k)"
    by (simp add: mult.assoc mult.commute)
  then have "round53 (m * n) < n * 2 ^ k" using P0 by simp
  then show ?thesis
    unfolding random_index_def m_def [symmetric] k_def [symmetric]
    by (simp add: less_mult_imp_div_less)
qed

lemma goodMove_in_validMoves:
  assumes "state_inv s" "\<not> isWin s" "\<not> isDraw s" "0 < depth" "is_random r"
  shows "\<exists>m. goodMove depth r s = Inr (Some m, s) \<and> m \<in> set (validMoves s)"
proof -
  from minimax_full_window [OF assms(1), of depth] assms(2-4) obtain res ms where
    r: "minimax depth NegInf PosInf s = Inr (res, s)"
    and ms: "res_moves res = Some ms" "ms \<noteq> []" "set ms \<subseteq> set (validMoves s)"
    by auto
  let ?i = "random_index r (length ms)"
  have i: "?i < length ms" using assms(5) ms(2) by (intro random_index_less) simp_all
  then have "ms ! ?i \<in> set (validMoves s)" using ms(3) nth_mem by blast
  moreover have "goodMove depth r s = Inr (Some (ms ! ?i), s)"
    using r ms(1) i by (simp add: goodMove_def Let_def)
  ultimately show ?thesis by blast
qed

lemma goodMove_no_moves:
  assumes "isWin s \<or> isDraw s \<or> validMoves s = []"
  shows "goodMove depth r s = Inl TypeError"
proof (cases "isWin s \<or> isDraw s \<or> depth = 0")
  case True
  then show ?thesis by (auto simp: goodMove_def minimax.simps [of depth])
next
  case False
  with assms have "validMoves s = []" by simp
  with False show ?thesis by (simp add: goodMove_def minimax.simps [of depth])
qed

section \<open>The claims about the search\<close>

text \<open>
  C6: in a reachable state that is neither won nor drawn and has a valid move,
  \<open>goodMove\<close> with a positive depth returns a cell index that is one of the valid moves
  of that state (and leaves the state as it was), whatever double in \<open>[0, 1)\<close> the random
  generator gave.
\<close>

theorem goodMove_returns_valid_move:
  "reachable s \<Longrightarrow> \<not> isWin s \<Longrightarrow> \<not> isDraw s \<Longrightarrow> validMoves s \<noteq> [] \<Longrightarrow> 0 < depth \<Longrightarrow>
     is_random r \<Longrightarrow>
     \<exists>m. goodMove depth r s = Inr (Some m, s) \<and> m \<in> set (validMoves s)"
  using goodMove_in_validMoves [OF reachable_inv] by blast

text \<open>
  On a fresh game at depth 1 all nine moves tie. With the random number
  \<open>0.2222222222222222\<close>, which is \<open>2001599834386887 / 2^53\<close>, the exact product with 9
  is \<open>2 - 2^-53\<close>; it lies halfway between two doubles and rounds to 2, so the third
  move is chosen.
\<close>

lemma fresh_game_search:
  "\<not> isWin new_game" "\<not> isDraw new_game"
  "validMoves new_game = [0, 1, 2, 3, 4, 5, 6, 7, 8]"
  "minimax 1 NegInf PosInf new_game =
     Inr (Result (Fin 0) (Some [0, 1, 2, 3, 4, 5, 6, 7, 8]), new_game)"
  by code_simp+

lemma two_ninths:
  "is_random (Random 2001599834386887 53)"
  "random_index (Random 2001599834386887 53) 9 = 2"
  by (simp_all add: is_random_def random_index_def round53_def bitlen.simps Let_def)

lemma goodMove_two_ninths:
  "goodMove 1 (Random 2001599834386887 53) new_game = Inr (Some 2, new_game)"
proof -
  have len: "length [0::int, 1, 2, 3, 4, 5, 6, 7, 8] = 9"
    by simp
  have "goodMove 1 (Random 2001599834386887 53) new_game =
          Inr (if (2::nat) < 9 then Some ([0::int, 1, 2, 3, 4, 5, 6, 7, 8] ! 2) else None,
               new_game)"
    by (simp only: goodMove_def fresh_game_search(4) sum.case prod.case result.sel
          option.case len two_ninths(2) Let_def)
  then show ?thesis
    by simp
qed

theorem goodMove_returns_valid_move_witness:
  "reachable new_game \<and> \<not> isWin new_game \<and> \<not> isDraw new_game \<and>
   validMoves new_game = [0, 1, 2, 3, 4, 5, 6, 7, 8] \<and> (0::nat) < 1 \<and>
   is_random (Random 2001599834386887 53) \<and>
   goodMove 1 (Random 2001599834386887 53) new_game = Inr (Some 2, new_game) \<and>
   (\<exists>m. goodMove 1 (Random 2001599834386887 53) new_game = Inr (Some m, new_game) \<and>
        m \<in> set (validMoves new_game))"
proof -
  have "validMoves new_game \<noteq> []"
    by (simp add: fresh_game_search)
  from goodMove_returns_valid_move [OF reachable.fresh fresh_game_search(1,2) this _
      two_ninths(1), of 1]
  show ?thesis
    using reachable.fresh
    by (simp add: fresh_game_search two_ninths goodMove_two_ninths del: One_nat_def)
qed

text \<open>
  C2, as the code has it: called on a won or drawn state, or on a state with no valid
  move, \<open>goodMove\<close> throws a TypeError (the result of \<open>minimax\<close> has no list of moves, and
  \<open>goodMove\<close> reads its length); it does not produce \<open>undefined\<close>. \<open>minimax\<close> itself
  returns, without throwing, in every reachable state.
\<close>

theorem goodMove_throws_without_moves:
  "reachable s \<Longrightarrow>
     (isWin s \<or> isDraw s \<or> validMoves s = [] \<longrightarrow> goodMove depth r s = Inl TypeError) \<and>
     (\<exists>res. minimax depth alpha beta s = Inr (res, s))"
  using goodMove_no_moves [of s depth r] minimax_returns [OF reachable_inv, of s depth alpha beta]
  by blast

theorem goodMove_throws_without_moves_witness:
  "reachable (after_plays [0, 3, 1, 4, 2]) \<and> isWin (after_plays [0, 3, 1, 4, 2]) \<and>
   goodMove 3 (Random 0 0) (after_plays [0, 3, 1, 4, 2]) = Inl TypeError \<and>
   (\<exists>res. minimax 3 NegInf PosInf (after_plays [0, 3, 1, 4, 2]) =
             Inr (res, after_plays [0, 3, 1, 4, 2]))"
  using goodMove_throws_without_moves [OF reachable_after_plays, of "[0, 3, 1, 4, 2]" 3 "Random 0 0" NegInf PosInf]
    reachable_after_plays [of "[0, 3, 1, 4, 2]"]
  by (simp add: won_game)

text \<open>
  The claim as it was written fails on the drawn board of nine moves: no move is valid
  there, and \<open>goodMove\<close> throws instead of returning \<open>undefined\<close>.
\<close>

lemma drawn_game_search:
  "validMoves (after_plays [0, 1, 2, 4, 3, 5, 7, 6, 8]) = []"
  "minimax 9 NegInf PosInf (after_plays [0, 1, 2, 4, 3, 5, 7, 6, 8]) =
     Inr (Result (Fin 0) None, after_plays [0, 1, 2, 4, 3, 5, 7, 6, 8])"
  by code_simp+

theorem goodMove_undefined_counterexample:
  "reachable (after_plays [0, 1, 2, 4, 3, 5, 7, 6, 8]) \<and>
   validMoves (after_plays [0, 1, 2, 4, 3, 5, 7, 6, 8]) = [] \<and>
   goodMove 9 (Random 0 0) (after_plays [0, 1, 2, 4, 3, 5, 7, 6, 8]) = Inl TypeError \<and>
   goodMove 9 (Random 0 0) (after_plays [0, 1, 2, 4, 3, 5, 7, 6, 8]) \<noteq>
     Inr (None, after_plays [0, 1, 2, 4, 3, 5, 7, 6, 8])"
  using reachable_after_plays [of "[0, 1, 2, 4, 3, 5, 7, 6, 8]"]
  by (simp add: goodMove_def drawn_game_search)

text \<open>
  C1 fails on the code. With player 1 to move on the board \<open>1 2 1 / 2 1 . / 2 . .\<close>
  (after the moves 0, 1, 2, 3, 4, 6) and depth 2, the search without pruning finds the
  winning move 8 with value 10; \<open>minimax\<close> with the full window returns value 0 and the
  move 5 only: the search below move 7 leaves its loop at its first move and returns
  \<open>-Infinity\<close>, which the root negates to \<open>+Infinity\<close>, raises \<open>alpha\<close> to, and leaves
  its own loop on, before move 8 is tried. At full depth on the board
  \<open>1 2 1 / . 2 . / 2 1 .\<close> (after 0, 1, 2, 4, 7, 6) \<open>minimax\<close> returns the value 10
  for a position whose value is 0.
\<close>

theorem pruned_search_differs:
  "minimax 2 NegInf PosInf (after_plays [0, 1, 2, 3, 4, 6]) =
     Inr (Result (Fin 0) (Some [5]), after_plays [0, 1, 2, 3, 4, 6]) \<and>
   negamax_unpruned 2 (after_plays [0, 1, 2, 3, 4, 6]) = (Fin 10, [8]) \<and>
   minimax 9 NegInf PosInf (after_plays [0, 1, 2, 4, 7, 6]) =
     Inr (Result (Fin 10) (Some [5]), after_plays [0, 1, 2, 4, 7, 6]) \<and>
   negamax_unpruned 9 (after_plays [0, 1, 2, 4, 7, 6]) = (Fin 0, [3, 5, 8])"
  by code_simp

theorem pruned_search_differs_witness:
  "minimax 2 NegInf PosInf (after_plays [0, 1, 2, 3, 4, 6]) \<noteq>
     Inr (Result (fst (negamax_unpruned 2 (after_plays [0, 1, 2, 3, 4, 6])))
            (Some (snd (negamax_unpruned 2 (after_plays [0, 1, 2, 3, 4, 6])))),
          after_plays [0, 1, 2, 3, 4, 6])"
  using pruned_search_differs by simp

end
